theory Spec2Isabelle
  imports Complex_Main "HOL-Library.Multiset" "HOL-Library.AList"
begin

section \<open>Python list operations used by \<open>build_pdf\<close>\<close>

text \<open>
  Extended slicing \<open>xs[start:stop:step]\<close> as CPython computes it: a bound that is given
  is first clipped against the length (negative bounds count from the end), a bound that
  is left out takes the default of the direction of travel, and the number of elements
  follows from the clipped bounds. Integers are unbounded, so the defaults are written as
  the values the clipping would produce.
\<close>

definition adjust_index :: "int \<Rightarrow> int \<Rightarrow> int \<Rightarrow> int" where
  "adjust_index len step v =
     (if v < 0 then
        (if v + len < 0 then (if step < 0 then - 1 else 0) else v + len)
      else if len \<le> v then (if step < 0 then len - 1 else len)
      else v)"

definition slice_start :: "int \<Rightarrow> int option \<Rightarrow> int \<Rightarrow> int" where
  "slice_start len start step =
     (case start of
        None \<Rightarrow> (if step < 0 then len - 1 else 0)
      | Some v \<Rightarrow> adjust_index len step v)"

definition slice_stop :: "int \<Rightarrow> int option \<Rightarrow> int \<Rightarrow> int" where
  "slice_stop len stop step =
     (case stop of
        None \<Rightarrow> (if step < 0 then - 1 else len)
      | Some v \<Rightarrow> adjust_index len step v)"

definition slice_length :: "int \<Rightarrow> int \<Rightarrow> int \<Rightarrow> nat" where
  "slice_length s e step =
     (if step < 0 then (if e < s then nat ((s - e - 1) div (- step) + 1) else 0)
      else if 0 < step then (if s < e then nat ((e - s - 1) div step + 1) else 0)
      else 0)"

text \<open>
  The positions a slice visits, in the order it visits them. A step of zero makes Python
  raise \<open>ValueError\<close>; every slice of the program has the literal step \<open>2\<close> or \<open>-2\<close>,
  and the model gives the empty list there.
\<close>

definition slice_indices :: "nat \<Rightarrow> int option \<Rightarrow> int option \<Rightarrow> int \<Rightarrow> int list" where
  "slice_indices n start stop step =
     (let s = slice_start (int n) start step;
          e = slice_stop (int n) stop step
      in map (\<lambda>j. s + int j * step) [0..<slice_length s e step])"

definition py_slice :: "'a list \<Rightarrow> int option \<Rightarrow> int option \<Rightarrow> int \<Rightarrow> 'a list" where
  "py_slice xs start stop step =
     map (\<lambda>i. xs ! nat i) (slice_indices (length xs) start stop step)"

text \<open>\<open>enumerate(xs, start)\<close>: each element with its running number.\<close>

primrec py_enumerate :: "'a list \<Rightarrow> int \<Rightarrow> (int \<times> 'a) list" where
  "py_enumerate [] start = []"
| "py_enumerate (x # xs) start = (start, x) # py_enumerate xs (start + 1)"

section \<open>The imposition plan of \<open>build_pdf\<close>\<close>

text \<open>
  A page slot is \<open>None\<close> for a blank page and \<open>Some p\<close> for the image at path \<open>p\<close>
  (the string of the path). \<open>imgs\<close> stands for \<open>natsorted(iter_img_paths(imgs_path))\<close>, the
  sorted list of image files, which the directory scan supplies.
\<close>

type_synonym path = string
type_synonym page = "int \<times> path option"

text \<open>\<open>[None] * num_blanks\<close> is empty when the count is negative.\<close>

definition blanks :: "int \<Rightarrow> path option list" where
  "blanks num_blanks = replicate (nat num_blanks) None"

definition img_paths :: "path list \<Rightarrow> int \<Rightarrow> path option list" where
  "img_paths imgs num_blanks = blanks num_blanks @ map Some imgs"

definition empty_pages :: "path option list \<Rightarrow> path option list" where
  "empty_pages ps = replicate ((4 - (length ps mod 4)) mod 4) None"

definition padded_img_paths :: "path list \<Rightarrow> int \<Rightarrow> path option list" where
  "padded_img_paths imgs num_blanks =
     img_paths imgs num_blanks @ empty_pages (img_paths imgs num_blanks)"

definition num_pages :: "path list \<Rightarrow> int \<Rightarrow> nat" where
  "num_pages imgs num_blanks = length (padded_img_paths imgs num_blanks)"

definition page_info :: "path list \<Rightarrow> int \<Rightarrow> page list" where
  "page_info imgs num_blanks =
     py_enumerate (padded_img_paths imgs num_blanks) (1 - num_blanks)"

text \<open>
  The four slices of lines 88 to 91, over any list \<open>xs\<close> of slots; \<open>num_pages\<close> is its
  length and \<open>middle_index\<close> is \<open>num_pages // 2\<close>.
\<close>

definition middle_index :: "'a list \<Rightarrow> int" where
  "middle_index xs = int (length xs) div 2"

definition back_right_pages :: "'a list \<Rightarrow> 'a list" where
  "back_right_pages xs = py_slice xs None (Some (middle_index xs)) (- 2)"

definition back_left_pages :: "'a list \<Rightarrow> 'a list" where
  "back_left_pages xs = py_slice xs None (Some (middle_index xs)) 2"

definition front_right_pages :: "'a list \<Rightarrow> 'a list" where
  "front_right_pages xs = py_slice xs (Some 1) (Some (middle_index xs)) 2"

definition front_left_pages :: "'a list \<Rightarrow> 'a list" where
  "front_left_pages xs =
     py_slice xs (Some (int (length xs) - 2)) (Some (middle_index xs - 1)) (- 2)"

section \<open>Paths\<close>

text \<open>
  \<open>Path.name\<close> is the last component of the path and \<open>Path.suffix\<close> the part of the name
  from its last dot on, provided that dot is neither the first nor the last character of
  the name; otherwise the suffix is empty. The comparison with \<open>".jpg"\<close> is by characters,
  so it is case sensitive.
\<close>

definition path_name :: "path \<Rightarrow> string" where
  "path_name p = rev (takeWhile (\<lambda>c. c \<noteq> CHR ''/'') (rev p))"

definition path_suffix :: "path \<Rightarrow> string" where
  "path_suffix p =
     (let name = path_name p;
          ext = rev (takeWhile (\<lambda>c. c \<noteq> CHR ''.'') (rev name))
      in if CHR ''.'' \<in> set name \<and> ext \<noteq> [] \<and> length ext + 1 < length name
         then CHR ''.'' # ext else [])"

section \<open>The document object \<open>MangaPDF\<close>\<close>

datatype error =
    ValueError string
  | ZeroDivisionError
  | ParseError string

text \<open>
  What the header parsers of the PDF library return that \<open>write_image\<close> reads: the pixel
  width and height of the image. The registry entry is this information together with the
  resource index \<open>i\<close> that \<open>write_image\<close> stores under the key \<open>"i"\<close>.
\<close>

record image_info =
  info_w :: int
  info_h :: int
  info_i :: nat

text \<open>
  The attributes and methods \<open>MangaPDF\<close> inherits from the PDF library, as they stand after
  line 58: the scale factor \<open>k\<close>, the page height \<open>h\<close> in user units, the font size in
  user units, the advance-width table \<open>cw\<close> of the current font, and the two header
  parsers, which read the file at a path and either fail with a message or return the
  width and height found in the header. The library is not part of the repository, so these
  are parameters. The width table of a core font has an entry for every character, so the
  lookup \<open>cw.get(c)\<close> is a total function here.
\<close>

record fpdf =
  fpdf_k :: real
  fpdf_h :: real
  font_size :: real
  cw :: "char \<Rightarrow> real"
  parsejpg :: "path \<Rightarrow> string + int \<times> int"
  parsepng :: "path \<Rightarrow> string + int \<times> int"

text \<open>
  One line written by \<open>_out\<close>. The numbers are the values that the format string rounds
  to two decimals: \<open>DrawImage (w * k) (h * k) (x * k) ((self.h - (y + h)) * k) i\<close> for
  \<open>q ... cm /Ii Do Q\<close> and \<open>DrawText (x * k) ((self.h - y) * k) page_num\<close> for
  \<open>BT ... Td (page_num) Tj ET\<close>. Python floats are modelled as real numbers.
\<close>

datatype op =
    DrawImage real real real real nat
  | DrawText real real int

text \<open>
  The mutable part of the object: the image registry \<open>self.images\<close>, a dictionary from the
  path string to the registry entry, kept in insertion order; the pages written so far,
  each the list of its lines; and the lines written while no page is open.
\<close>

record MangaPDF =
  images :: "(path \<times> image_info) list"
  pages :: "op list list"
  buffer :: "op list"

definition fresh :: MangaPDF where
  "fresh = \<lparr>images = [], pages = [], buffer = []\<rparr>"

definition page_height :: real where "page_height = 210"
definition page_width :: real where "page_width = 297"
definition image_margin :: real where "image_margin = 4.2"
definition text_margin :: real where "text_margin = 7"

text \<open>\<open>add_page\<close> of the library opens a new page; what it writes itself is left out.\<close>

definition add_page :: "MangaPDF \<Rightarrow> MangaPDF" where
  "add_page self = self\<lparr>pages := pages self @ [[]]\<rparr>"

definition out :: "MangaPDF \<Rightarrow> op \<Rightarrow> MangaPDF" where
  "out self s =
     (case rev (pages self) of
        [] \<Rightarrow> self\<lparr>buffer := buffer self @ [s]\<rparr>
      | p # ps \<Rightarrow> self\<lparr>pages := rev ps @ [p @ [s]]\<rparr>)"

text \<open>Lines 16 to 23: the parser is chosen by the suffix of the path.\<close>

definition parse_image :: "fpdf \<Rightarrow> path \<Rightarrow> error + int \<times> int" where
  "parse_image lib p =
     (if path_suffix p = ''.jpg'' \<or> path_suffix p = ''.jpeg'' then
        (case parsejpg lib p of Inl m \<Rightarrow> Inl (ParseError m) | Inr d \<Rightarrow> Inr d)
      else if path_suffix p = ''.png'' then
        (case parsepng lib p of Inl m \<Rightarrow> Inl (ParseError m) | Inr d \<Rightarrow> Inr d)
      else Inl (ValueError ''invalid image extension''))"

text \<open>
  Lines 27 to 44: the rectangle of the image on its half of the sheet. \<open>iw / ih\<close> is
  Python's true division of two integers, which raises \<open>ZeroDivisionError\<close> for \<open>ih = 0\<close>.
\<close>

record rect =
  rect_x :: real
  rect_y :: real
  rect_w :: real
  rect_h :: real

definition drawable_w :: real where
  "drawable_w = page_width / 2 - image_margin - image_margin"

definition drawable_h :: real where
  "drawable_h = page_height - image_margin - image_margin"

definition drawable_x :: "bool \<Rightarrow> real" where
  "drawable_x right_side = (if right_side then page_width / 2 else 0) + image_margin"

definition drawable_y :: real where
  "drawable_y = image_margin"

definition place :: "int \<Rightarrow> int \<Rightarrow> bool \<Rightarrow> error + rect" where
  "place iw ih right_side =
     (if ih = 0 then Inl ZeroDivisionError
      else
        let image_ratio = real_of_int iw / real_of_int ih;
            pw = drawable_w;
            ph = drawable_h;
            page_ratio = pw / ph;
            px = drawable_x right_side;
            py = drawable_y
        in if image_ratio > page_ratio then
             Inr \<lparr>rect_x = px,
                  rect_y = py + (ph - ph * (page_ratio / image_ratio)) / 2,
                  rect_w = pw,
                  rect_h = ph * (page_ratio / image_ratio)\<rparr>
           else
             Inr \<lparr>rect_x = px + (pw - pw * (image_ratio / page_ratio)) / 2,
                  rect_y = py,
                  rect_w = pw * (image_ratio / page_ratio),
                  rect_h = ph\<rparr>)"

definition write_image :: "fpdf \<Rightarrow> MangaPDF \<Rightarrow> path \<Rightarrow> bool \<Rightarrow> error + MangaPDF" where
  "write_image lib self p right_side =
     (case parse_image lib p of
        Inl e \<Rightarrow> Inl e
      | Inr (iw, ih) \<Rightarrow>
          let i = length (images self) + 1;
              info = \<lparr>info_w = iw, info_h = ih, info_i = i\<rparr>;
              self1 = self\<lparr>images := AList.update p info (images self)\<rparr>
          in (case place iw ih right_side of
                Inl e \<Rightarrow> Inl e
              | Inr r \<Rightarrow>
                  Inr (out self1
                    (DrawImage (rect_w r * fpdf_k lib) (rect_h r * fpdf_k lib)
                       (rect_x r * fpdf_k lib)
                       ((fpdf_h lib - (rect_y r + rect_h r)) * fpdf_k lib) i))))"

text \<open>\<open>str\<close> of an integer: its decimal digits, with a minus sign when negative.\<close>

definition digit_char :: "nat \<Rightarrow> char" where
  "digit_char d = char_of (48 + d)"

fun str_nat :: "nat \<Rightarrow> string" where
  "str_nat n = (if n < 10 then [digit_char n] else str_nat (n div 10) @ [digit_char (n mod 10)])"

definition str_int :: "int \<Rightarrow> string" where
  "str_int n = (if n < 0 then CHR ''-'' # str_nat (nat (- n)) else str_nat (nat n))"

definition text_width :: "fpdf \<Rightarrow> string \<Rightarrow> real" where
  "text_width lib text = sum_list (map (cw lib) text) * font_size lib / 1000"

definition write_page_num :: "fpdf \<Rightarrow> MangaPDF \<Rightarrow> int \<Rightarrow> bool \<Rightarrow> MangaPDF" where
  "write_page_num lib self page_num right_side =
     (let x = (if right_side
               then page_width - text_margin - text_width lib (str_int page_num)
               else text_margin);
          y = page_height - text_margin
      in out self (DrawText (x * fpdf_k lib) ((fpdf_h lib - y) * fpdf_k lib) page_num))"

text \<open>
  Lines 59 to 66. One half of a sheet is drawn only when its slot holds an image; an
  error raised while drawing ends the construction.
\<close>

definition write_half :: "fpdf \<Rightarrow> MangaPDF \<Rightarrow> page \<Rightarrow> bool \<Rightarrow> error + MangaPDF" where
  "write_half lib self pg right_side =
     (case snd pg of
        None \<Rightarrow> Inr self
      | Some p \<Rightarrow>
          (case write_image lib self p right_side of
             Inl e \<Rightarrow> Inl e
           | Inr self1 \<Rightarrow> Inr (write_page_num lib self1 (fst pg) right_side)))"

fun write_sheets :: "fpdf \<Rightarrow> MangaPDF \<Rightarrow> (page \<times> page) list \<Rightarrow> error + MangaPDF" where
  "write_sheets lib self [] = Inr self"
| "write_sheets lib self ((l, r) # rest) =
     (case write_half lib (add_page self) l False of
        Inl e \<Rightarrow> Inl e
      | Inr self1 \<Rightarrow>
          (case write_half lib self1 r True of
             Inl e \<Rightarrow> Inl e
           | Inr self2 \<Rightarrow> write_sheets lib self2 rest))"

definition MangaPDF_init :: "fpdf \<Rightarrow> page list \<Rightarrow> page list \<Rightarrow> error + MangaPDF" where
  "MangaPDF_init lib left_pages right_pages = write_sheets lib fresh (zip left_pages right_pages)"

text \<open>
  Lines 80 to 93: the back document is built first, then the front document. Writing the
  two files is left to the caller of the model.
\<close>

definition build_pdf :: "fpdf \<Rightarrow> path list \<Rightarrow> int \<Rightarrow> error + MangaPDF \<times> MangaPDF" where
  "build_pdf lib imgs num_blanks =
     (let pi = page_info imgs num_blanks in
      case MangaPDF_init lib (back_left_pages pi) (back_right_pages pi) of
        Inl e \<Rightarrow> Inl e
      | Inr back \<Rightarrow>
          (case MangaPDF_init lib (front_left_pages pi) (front_right_pages pi) of
             Inl e \<Rightarrow> Inl e
           | Inr front \<Rightarrow> Inr (back, front)))"

section \<open>The index sequences as the specification words them\<close>

text \<open>
  The specification describes each of the four sequences as an arithmetic progression of
  0-based indices that stops at a bound, with \<open>N\<close> the number of slots and \<open>mid = N / 2\<close>:
  \<open>0, 2, 4, \<dots>\<close> up to (not including) \<open>mid\<close>; \<open>N-1, N-3, \<dots>\<close> down to (not including)
  \<open>mid\<close>; \<open>N-2, N-4, \<dots>\<close> down to \<open>mid\<close>; and \<open>1, 3, 5, \<dots>\<close> up to (not including) \<open>mid\<close>.
  These definitions follow those words, not the code.
\<close>

definition spec_back_left :: "nat \<Rightarrow> int list" where
  "spec_back_left N =
     takeWhile (\<lambda>i. i < int N div 2) (map (\<lambda>j. 0 + 2 * int j) [0..<N])"

definition spec_back_right :: "nat \<Rightarrow> int list" where
  "spec_back_right N =
     takeWhile (\<lambda>i. int N div 2 < i) (map (\<lambda>j. int N - 1 - 2 * int j) [0..<N])"

definition spec_front_left :: "nat \<Rightarrow> int list" where
  "spec_front_left N =
     takeWhile (\<lambda>i. int N div 2 \<le> i) (map (\<lambda>j. int N - 2 - 2 * int j) [0..<N])"

definition spec_front_right :: "nat \<Rightarrow> int list" where
  "spec_front_right N =
     takeWhile (\<lambda>i. i < int N div 2) (map (\<lambda>j. 1 + 2 * int j) [0..<N])"

section \<open>What a finished document shows\<close>

text \<open>
  Everything \<open>_out\<close> has written, in the order of writing: lines go to the buffer only
  while no page is open, and after that to the last page.
\<close>

definition written :: "MangaPDF \<Rightarrow> op list" where
  "written self = buffer self @ concat (pages self)"

text \<open>The resource indices \<open>/Ii\<close> that the written lines refer to, in order.\<close>

fun image_ref_of :: "op \<Rightarrow> nat list" where
  "image_ref_of (DrawImage w h x y i) = [i]"
| "image_ref_of (DrawText x y n) = []"

definition image_refs :: "MangaPDF \<Rightarrow> nat list" where
  "image_refs self = concat (map image_ref_of (written self))"


text \<open>The page numbers that the written lines print, in order.\<close>

fun page_num_of :: "op \<Rightarrow> int list" where
  "page_num_of (DrawImage w h x y i) = []"
| "page_num_of (DrawText x y n) = [n]"

definition placed_page_nums :: "MangaPDF \<Rightarrow> int list" where
  "placed_page_nums self = concat (map page_num_of (written self))"

text \<open>
  The image paths and the page numbers of a list of sheets, in the order in which the loop
  of lines 59 to 66 draws them: left half before right half, blank halves skipped.
\<close>

fun half_path :: "page \<Rightarrow> path list" where
  "half_path (n, None) = []"
| "half_path (n, Some p) = [p]"

fun half_num :: "page \<Rightarrow> int list" where
  "half_num (n, None) = []"
| "half_num (n, Some p) = [n]"

definition sheet_paths :: "(page \<times> page) list \<Rightarrow> path list" where
  "sheet_paths zs = concat (map (\<lambda>(l, r). half_path l @ half_path r) zs)"

definition sheet_nums :: "(page \<times> page) list \<Rightarrow> int list" where
  "sheet_nums zs = concat (map (\<lambda>(l, r). half_num l @ half_num r) zs)"

text \<open>
  An image can be drawn when its suffix is accepted, the parser of that suffix returns a
  width and a height, and the height is not zero.
\<close>

definition image_ok :: "fpdf \<Rightarrow> path \<Rightarrow> bool" where
  "image_ok lib p = (case parse_image lib p of Inl e \<Rightarrow> False | Inr (iw, ih) \<Rightarrow> ih \<noteq> 0)"

text \<open>
  A library instance for the examples: millimetres on a landscape sheet of 297 by 210, a
  bold 12 point font whose characters are all 500 units wide, a JPEG parser that finds
  2 by 3 pixels in every file and a PNG parser that finds 3 by 2 pixels, except in the file
  \<open>bad.png\<close>, which it rejects.
\<close>

definition example_lib :: fpdf where
  "example_lib =
     \<lparr>fpdf_k = 72 / 25.4, fpdf_h = 210, font_size = 12 / (72 / 25.4), cw = (\<lambda>c. 500),
      parsejpg = (\<lambda>p. Inr (2, 3)),
      parsepng = (\<lambda>p. if path_name p = ''bad.png'' then Inl ''Not a PNG file'' else Inr (3, 2))\<rparr>"

section \<open>Slices of a list whose length is a multiple of four\<close>

lemma takeWhile_map_upt:
  assumes "m \<le> N" and "\<And>j. j < m \<Longrightarrow> P (f j)" and "m < N \<Longrightarrow> \<not> P (f m)"
  shows "takeWhile P (map f [0..<N]) = map f [0..<m]"
proof -
  have "takeWhile P (map f [0..<N]) = take m (map f [0..<N])"
  proof (rule takeWhile_eq_take_P_nth)
    fix i assume "i < m" "i < length (map f [0..<N])"
    then show "P (map f [0..<N] ! i)" using assms(2) by simp
  next
    assume "m < length (map f [0..<N])"
    then show "\<not> P (map f [0..<N] ! m)" using assms(3) by simp
  qed
  also have "\<dots> = map f [0..<m]" using assms(1) by (simp add: take_map)
  finally show ?thesis .
qed

lemma slice_length_up_even: "slice_length 0 (2 * int m) 2 = m"
proof -
  have "(2 * int m - 1) div 2 = int m - 1" by linarith
  then show ?thesis by (simp add: slice_length_def)
qed

lemma slice_length_up_odd: "slice_length 1 (2 * int m) 2 = m"
proof -
  have "(2 * int m - 1 - 1) div 2 = int m - 1" by linarith
  then show ?thesis by (simp add: slice_length_def)
qed

lemma slice_length_down_odd: "slice_length (4 * int m - 1) (2 * int m) (- 2) = m"
proof -
  have "(4 * int m - 1 - 2 * int m - 1) div 2 = int m - 1" by linarith
  then show ?thesis by (simp add: slice_length_def)
qed

lemma slice_length_down_even: "slice_length (4 * int m - 2) (2 * int m - 1) (- 2) = m"
proof -
  have "(4 * int m - 2 - (2 * int m - 1) - 1) div 2 = int m - 1" by linarith
  then show ?thesis by (simp add: slice_length_def)
qed

lemma slice_length_empty: "slice_length s s step = 0"
  by (simp add: slice_length_def)

lemma back_left_indices:
  "slice_indices (4 * m) None (Some (int (4 * m) div 2)) 2 = map (\<lambda>j. 2 * int j) [0..<m]"
proof -
  have s: "slice_start (int (4 * m)) None 2 = 0"
    by (simp add: slice_start_def)
  have e: "slice_stop (int (4 * m)) (Some (int (4 * m) div 2)) 2 = 2 * int m"
    by (simp add: slice_stop_def adjust_index_def)
  show ?thesis
    unfolding slice_indices_def Let_def s e slice_length_up_even by (simp add: mult.commute)
qed

lemma front_right_indices:
  "slice_indices (4 * m) (Some 1) (Some (int (4 * m) div 2)) 2 = map (\<lambda>j. 1 + 2 * int j) [0..<m]"
proof (cases "m = 0")
  case True
  then show ?thesis
    by (simp add: slice_indices_def slice_start_def slice_stop_def adjust_index_def
        slice_length_empty)
next
  case False
  then have s: "slice_start (int (4 * m)) (Some 1) 2 = 1"
    by (simp add: slice_start_def adjust_index_def)
  have e: "slice_stop (int (4 * m)) (Some (int (4 * m) div 2)) 2 = 2 * int m"
    by (simp add: slice_stop_def adjust_index_def)
  show ?thesis
    unfolding slice_indices_def Let_def s e slice_length_up_odd by (simp add: mult.commute)
qed

lemma back_right_indices:
  "slice_indices (4 * m) None (Some (int (4 * m) div 2)) (- 2)
     = map (\<lambda>j. int (4 * m) - 1 - 2 * int j) [0..<m]"
proof (cases "m = 0")
  case True
  then show ?thesis
    by (simp add: slice_indices_def slice_start_def slice_stop_def adjust_index_def
        slice_length_empty)
next
  case False
  have s: "slice_start (int (4 * m)) None (- 2) = 4 * int m - 1"
    by (simp add: slice_start_def)
  from False have e: "slice_stop (int (4 * m)) (Some (int (4 * m) div 2)) (- 2) = 2 * int m"
    by (simp add: slice_stop_def adjust_index_def)
  show ?thesis
    unfolding slice_indices_def Let_def s e slice_length_down_odd by (simp add: mult.commute)
qed

lemma front_left_indices:
  "slice_indices (4 * m) (Some (int (4 * m) - 2)) (Some (int (4 * m) div 2 - 1)) (- 2)
     = map (\<lambda>j. int (4 * m) - 2 - 2 * int j) [0..<m]"
proof (cases "m = 0")
  case True
  then show ?thesis
    by (simp add: slice_indices_def slice_start_def slice_stop_def adjust_index_def
        slice_length_empty)
next
  case False
  then have s: "slice_start (int (4 * m)) (Some (int (4 * m) - 2)) (- 2) = 4 * int m - 2"
    by (simp add: slice_start_def adjust_index_def)
  from False
  have e: "slice_stop (int (4 * m)) (Some (int (4 * m) div 2 - 1)) (- 2) = 2 * int m - 1"
    by (simp add: slice_stop_def adjust_index_def)
  show ?thesis
    unfolding slice_indices_def Let_def s e slice_length_down_even by (simp add: mult.commute)
qed

lemma spec_back_left_eq: "spec_back_left (4 * m) = map (\<lambda>j. 2 * int j) [0..<m]"
  unfolding spec_back_left_def by (simp, rule takeWhile_map_upt) auto
lemma spec_back_right_eq: "spec_back_right (4 * m) = map (\<lambda>j. int (4 * m) - 1 - 2 * int j) [0..<m]"
  unfolding spec_back_right_def by (rule takeWhile_map_upt) auto
lemma spec_front_left_eq: "spec_front_left (4 * m) = map (\<lambda>j. int (4 * m) - 2 - 2 * int j) [0..<m]"
  unfolding spec_front_left_def by (rule takeWhile_map_upt) auto
lemma spec_front_right_eq: "spec_front_right (4 * m) = map (\<lambda>j. 1 + 2 * int j) [0..<m]"
  unfolding spec_front_right_def by (rule takeWhile_map_upt) auto

section \<open>Page numbers and padding\<close>

lemma length_py_enumerate: "length (py_enumerate xs s) = length xs"
  by (induction xs arbitrary: s) auto

lemma nth_py_enumerate: "i < length xs \<Longrightarrow> py_enumerate xs s ! i = (s + int i, xs ! i)"
proof (induction xs arbitrary: s i)
  case Nil
  then show ?case by simp
next
  case (Cons x xs)
  then show ?case by (cases i) auto
qed

lemma map_snd_py_enumerate: "map snd (py_enumerate xs s) = xs"
  by (induction xs arbitrary: s) auto

lemma length_img_paths: "length (img_paths imgs b) = nat b + length imgs"
  by (simp add: img_paths_def blanks_def)

lemma length_padded_mod4: "length (padded_img_paths imgs b) mod 4 = 0"
proof -
  have small: "(r + (4 - r) mod 4) mod 4 = 0" if "r < 4" for r :: nat
  proof -
    from that consider "r = 0" | "r = 1" | "r = 2" | "r = 3" by linarith
    then show ?thesis by cases simp_all
  qed
  have "(n + (4 - n mod 4) mod 4) mod 4 = 0" for n :: nat
  proof -
    have "(n + (4 - n mod 4) mod 4) mod 4 = (n mod 4 + (4 - n mod 4) mod 4) mod 4"
      by (simp add: mod_add_left_eq)
    also have "\<dots> = 0" by (rule small) simp
    finally show ?thesis .
  qed
  then show ?thesis
    by (simp add: padded_img_paths_def empty_pages_def)
qed

lemma length_page_info: "length (page_info imgs b) = num_pages imgs b"
  by (simp add: page_info_def num_pages_def length_py_enumerate)

lemma nth_page_info:
  "i < num_pages imgs b \<Longrightarrow>
     page_info imgs b ! i = (int i + 1 - b, padded_img_paths imgs b ! i)"
  by (simp add: page_info_def num_pages_def nth_py_enumerate)

lemma nth_padded_blank: "i < nat b \<Longrightarrow> padded_img_paths imgs b ! i = None"
  by (simp add: padded_img_paths_def img_paths_def blanks_def nth_append)

lemma nth_padded_image:
  "j < length imgs \<Longrightarrow> padded_img_paths imgs b ! (nat b + j) = Some (imgs ! j)"
  by (simp add: padded_img_paths_def img_paths_def blanks_def nth_append)

lemma num_pages_ge: "nat b + length imgs \<le> num_pages imgs b"
  by (simp add: num_pages_def padded_img_paths_def img_paths_def blanks_def)

section \<open>Properties of the imposition plan\<close>

text \<open>
  C1: for every slot list whose length \<open>N\<close> is divisible by 4, with \<open>mid = N / 2\<close>, the four
  slices of \<open>build_pdf\<close> are exactly the four index sequences of the specification:
  back-left takes the indices \<open>0, 2, 4, \<dots>\<close> strictly below \<open>mid\<close> in increasing order,
  back-right the indices \<open>N-1, N-3, \<dots>\<close> strictly above \<open>mid\<close> in decreasing order,
  front-left the indices \<open>N-2, N-4, \<dots>\<close> down to and including \<open>mid\<close> in decreasing order,
  and front-right the indices \<open>1, 3, 5, \<dots>\<close> strictly below \<open>mid\<close> in increasing order.
\<close>

theorem plan_index_sequences:
  assumes "4 dvd length xs"
  shows "back_left_pages xs = map (\<lambda>i. xs ! nat i) (spec_back_left (length xs))
       \<and> back_right_pages xs = map (\<lambda>i. xs ! nat i) (spec_back_right (length xs))
       \<and> front_left_pages xs = map (\<lambda>i. xs ! nat i) (spec_front_left (length xs))
       \<and> front_right_pages xs = map (\<lambda>i. xs ! nat i) (spec_front_right (length xs))"
proof -
  from assms obtain m where m: "length xs = 4 * m" by (auto simp: dvd_def)
  show ?thesis
    unfolding back_left_pages_def back_right_pages_def front_left_pages_def front_right_pages_def
      py_slice_def middle_index_def m
    by (simp only: back_left_indices back_right_indices front_left_indices front_right_indices
        spec_back_left_eq spec_back_right_eq spec_front_left_eq spec_front_right_eq)
qed

text \<open>The theorem at a list of twelve slots, named \<open>a\<close> to \<open>l\<close>.\<close>

theorem plan_index_sequences_witness:
  "4 dvd length ''abcdefghijkl''
   \<and> back_left_pages ''abcdefghijkl'' = ''ace''
   \<and> back_right_pages ''abcdefghijkl'' = ''ljh''
   \<and> front_left_pages ''abcdefghijkl'' = ''kig''
   \<and> front_right_pages ''abcdefghijkl'' = ''bdf''"
proof -
  have h: "4 dvd length ''abcdefghijkl''" by code_simp
  have bl: "spec_back_left (length ''abcdefghijkl'') = [0, 2, 4]" by code_simp
  have br: "spec_back_right (length ''abcdefghijkl'') = [11, 9, 7]" by code_simp
  have fl: "spec_front_left (length ''abcdefghijkl'') = [10, 8, 6]" by code_simp
  have fr: "spec_front_right (length ''abcdefghijkl'') = [1, 3, 5]" by code_simp
  show ?thesis
    using h plan_index_sequences [OF h] unfolding bl br fl fr by simp
qed

text \<open>
  C4: for every list of images and every number \<open>b \<ge> 0\<close> of leading blanks, the slot at
  0-based position \<open>i\<close> carries the logical page number \<open>i + 1 - b\<close>; so every leading
  blank carries a number that is at most 0, and the image \<open>j\<close> of the input (0-based) sits at
  position \<open>b + j\<close> with number \<open>j + 1\<close>: the first real page is numbered 1 whatever the
  number of leading blanks.
\<close>

theorem page_numbers_with_leading_blanks:
  assumes "0 \<le> num_blanks"
  shows "(\<forall>i < num_pages imgs num_blanks.
            fst (page_info imgs num_blanks ! i) = int i + 1 - num_blanks)
       \<and> (\<forall>i < nat num_blanks.
            snd (page_info imgs num_blanks ! i) = None
            \<and> fst (page_info imgs num_blanks ! i) \<le> 0)
       \<and> (\<forall>j < length imgs.
            page_info imgs num_blanks ! (nat num_blanks + j) = (int j + 1, Some (imgs ! j)))"
proof (intro conjI allI impI)
  fix i assume "i < num_pages imgs num_blanks"
  then show "fst (page_info imgs num_blanks ! i) = int i + 1 - num_blanks"
    by (simp add: nth_page_info)
next
  fix i assume i: "i < nat num_blanks"
  with num_pages_ge [of num_blanks imgs] have "i < num_pages imgs num_blanks" by simp
  with i show "snd (page_info imgs num_blanks ! i) = None"
    by (simp add: nth_page_info nth_padded_blank)
  from i \<open>i < num_pages imgs num_blanks\<close> show "fst (page_info imgs num_blanks ! i) \<le> 0"
    by (simp add: nth_page_info)
next
  fix j assume j: "j < length imgs"
  with num_pages_ge [of num_blanks imgs] have "nat num_blanks + j < num_pages imgs num_blanks"
    by simp
  with j assms show "page_info imgs num_blanks ! (nat num_blanks + j) = (int j + 1, Some (imgs ! j))"
    by (simp add: nth_page_info nth_padded_image)
qed

text \<open>Two images behind three leading blanks.\<close>

theorem page_numbers_with_leading_blanks_witness:
  "page_info [''a.png'', ''b.png''] 3
     = [(- 2, None), (- 1, None), (0, None), (1, Some ''a.png''), (2, Some ''b.png''),
        (3, None), (4, None), (5, None)]
   \<and> fst (page_info [''a.png'', ''b.png''] 3 ! 4) = 2
   \<and> snd (page_info [''a.png'', ''b.png''] 3 ! 1) = None
   \<and> fst (page_info [''a.png'', ''b.png''] 3 ! 1) \<le> 0
   \<and> page_info [''a.png'', ''b.png''] 3 ! 3 = (1, Some ''a.png'')"
proof -
  have b: "(0::int) \<le> 3" by simp
  have n: "num_pages [''a.png'', ''b.png''] 3 = 8" by code_simp
  have v: "page_info [''a.png'', ''b.png''] 3
     = [(- 2, None), (- 1, None), (0, None), (1, Some ''a.png''), (2, Some ''b.png''),
        (3, None), (4, None), (5, None)]" by code_simp
  from page_numbers_with_leading_blanks [OF b, of "[''a.png'', ''b.png'']"]
  have "fst (page_info [''a.png'', ''b.png''] 3 ! 4) = 2"
    and "snd (page_info [''a.png'', ''b.png''] 3 ! 1) = None"
    and "fst (page_info [''a.png'', ''b.png''] 3 ! 1) \<le> 0"
    and "page_info [''a.png'', ''b.png''] 3 ! (nat 3 + 0) = (1, Some ''a.png'')"
    unfolding n by force+
  with v show ?thesis by simp
qed

text \<open>
  C5: for every list of images and every blank count, the padded slot list that is
  enumerated and sliced has a length divisible by 4; it is the list of the leading blanks
  followed by the images, followed by \<open>(4 - len % 4) % 4\<close> blank slots, where \<open>len\<close> is the
  length of that list.
\<close>

theorem padded_length_multiple_of_four:
  "4 dvd length (padded_img_paths imgs num_blanks)
   \<and> length (page_info imgs num_blanks) = length (padded_img_paths imgs num_blanks)
   \<and> img_paths imgs num_blanks = replicate (nat num_blanks) None @ map Some imgs
   \<and> padded_img_paths imgs num_blanks =
       img_paths imgs num_blanks
         @ replicate ((4 - length (img_paths imgs num_blanks) mod 4) mod 4) None"
proof (intro conjI)
  show "4 dvd length (padded_img_paths imgs num_blanks)"
    using length_padded_mod4 [of imgs num_blanks] by (simp only: dvd_eq_mod_eq_0)
  show "length (page_info imgs num_blanks) = length (padded_img_paths imgs num_blanks)"
    by (simp only: length_page_info num_pages_def)
  show "img_paths imgs num_blanks = replicate (nat num_blanks) None @ map Some imgs"
    by (simp only: img_paths_def blanks_def)
  show "padded_img_paths imgs num_blanks =
       img_paths imgs num_blanks
         @ replicate ((4 - length (img_paths imgs num_blanks) mod 4) mod 4) None"
    by (simp only: padded_img_paths_def empty_pages_def)
qed

text \<open>
  C10: for every negative blank count \<open>b\<close> no blank slot is prepended, yet the numbering
  still starts at \<open>1 - b\<close>: image \<open>j\<close> is at position \<open>j\<close> with number \<open>j + 1 - b\<close>, and the
  first real page carries \<open>1 - b\<close>, which is greater than 1.
\<close>

theorem negative_blank_count:
  assumes "num_blanks < 0"
  shows "blanks num_blanks = []
       \<and> img_paths imgs num_blanks = map Some imgs
       \<and> (\<forall>j < length imgs.
            page_info imgs num_blanks ! j = (int j + 1 - num_blanks, Some (imgs ! j)))
       \<and> (\<forall>p ps. imgs = p # ps \<longrightarrow>
            hd (page_info imgs num_blanks) = (1 - num_blanks, Some p) \<and> 1 < 1 - num_blanks)"
proof (intro conjI allI impI)
  show "blanks num_blanks = []" using assms by (simp add: blanks_def)
  then show "img_paths imgs num_blanks = map Some imgs" by (simp add: img_paths_def)
next
  fix j assume j: "j < length imgs"
  with num_pages_ge [of num_blanks imgs] have "j < num_pages imgs num_blanks" by simp
  moreover from assms have "nat num_blanks = 0" by simp
  ultimately show "page_info imgs num_blanks ! j = (int j + 1 - num_blanks, Some (imgs ! j))"
    using nth_padded_image [OF j, of num_blanks] by (simp add: nth_page_info)
next
  fix p ps assume "imgs = p # ps"
  with assms show "hd (page_info imgs num_blanks) = (1 - num_blanks, Some p)"
    by (simp add: page_info_def padded_img_paths_def img_paths_def blanks_def)
  from assms show "1 < 1 - num_blanks" by simp
qed

text \<open>Two images with a blank count of \<open>-2\<close>: the first page is numbered 3.\<close>

theorem negative_blank_count_witness:
  "blanks (- 2) = []
   \<and> page_info [''a.png'', ''b.png''] (- 2)
       = [(3, Some ''a.png''), (4, Some ''b.png''), (5, None), (6, None)]
   \<and> hd (page_info [''a.png'', ''b.png''] (- 2)) = (3, Some ''a.png'')"
proof -
  have b: "(- 2 :: int) < 0" by simp
  have v: "page_info [''a.png'', ''b.png''] (- 2)
       = [(3, Some ''a.png''), (4, Some ''b.png''), (5, None), (6, None)]" by code_simp
  from negative_blank_count [OF b, of "[''a.png'', ''b.png'']"]
  have "blanks (- 2) = []" and "hd (page_info [''a.png'', ''b.png''] (- 2)) = (1 - (- 2), Some ''a.png'')"
    by blast+
  with v show ?thesis by simp
qed

text \<open>
  C3: the worked example of six real pages and no leading blank. The input is padded to
  eight slots by two trailing blanks and \<open>mid\<close> is 4; back-left is the slots at indices
  \<open>[0, 2]\<close>, back-right at \<open>[7, 5]\<close>, front-right at \<open>[1, 3]\<close>, and front-left at \<open>[6, 4]\<close>
  (two slots, not the single index 6); the first back sheet pairs page 1 on the left with
  the blank page 8 on the right.
\<close>

theorem worked_example_six_pages:
  "padded_img_paths [p1, p2, p3, p4, p5, p6] 0
     = [Some p1, Some p2, Some p3, Some p4, Some p5, Some p6, None, None]
   \<and> page_info [p1, p2, p3, p4, p5, p6] 0
     = [(1, Some p1), (2, Some p2), (3, Some p3), (4, Some p4), (5, Some p5), (6, Some p6),
        (7, None), (8, None)]
   \<and> middle_index (page_info [p1, p2, p3, p4, p5, p6] 0) = 4
   \<and> back_left_pages (page_info [p1, p2, p3, p4, p5, p6] 0)
     = map (\<lambda>i. page_info [p1, p2, p3, p4, p5, p6] 0 ! i) [0, 2]
   \<and> back_right_pages (page_info [p1, p2, p3, p4, p5, p6] 0)
     = map (\<lambda>i. page_info [p1, p2, p3, p4, p5, p6] 0 ! i) [7, 5]
   \<and> front_left_pages (page_info [p1, p2, p3, p4, p5, p6] 0)
     = map (\<lambda>i. page_info [p1, p2, p3, p4, p5, p6] 0 ! i) [6, 4]
   \<and> front_right_pages (page_info [p1, p2, p3, p4, p5, p6] 0)
     = map (\<lambda>i. page_info [p1, p2, p3, p4, p5, p6] 0 ! i) [1, 3]
   \<and> hd (zip (back_left_pages (page_info [p1, p2, p3, p4, p5, p6] 0))
              (back_right_pages (page_info [p1, p2, p3, p4, p5, p6] 0)))
     = ((1, Some p1), (8, None))"
proof -
  have pad: "padded_img_paths [p1, p2, p3, p4, p5, p6] 0
     = [Some p1, Some p2, Some p3, Some p4, Some p5, Some p6, None, None]"
    by (simp add: padded_img_paths_def img_paths_def blanks_def empty_pages_def numeral_2_eq_2)
  have pi: "page_info [p1, p2, p3, p4, p5, p6] 0
     = [(1, Some p1), (2, Some p2), (3, Some p3), (4, Some p4), (5, Some p5), (6, Some p6),
        (7, None), (8, None)]"
    by (simp add: page_info_def pad)
  have two: "[0..<2] = [0, Suc 0]" by (simp add: upt_rec numeral_2_eq_2)
  have bl: "slice_indices 8 None (Some 4) 2 = [0, 2]"
    by (simp add: slice_indices_def slice_start_def slice_stop_def adjust_index_def
        slice_length_def two)
  have br: "slice_indices 8 None (Some 4) (- 2) = [7, 5]"
    by (simp add: slice_indices_def slice_start_def slice_stop_def adjust_index_def
        slice_length_def two)
  have fl: "slice_indices 8 (Some 6) (Some 3) (- 2) = [6, 4]"
    by (simp add: slice_indices_def slice_start_def slice_stop_def adjust_index_def
        slice_length_def two)
  have fr: "slice_indices 8 (Some 1) (Some 4) 2 = [1, 3]"
    by (simp add: slice_indices_def slice_start_def slice_stop_def adjust_index_def
        slice_length_def two)
  let ?L = "[(1::int, Some p1), (2, Some p2), (3, Some p3), (4, Some p4), (5, Some p5),
             (6, Some p6), (7, None), (8, None)]"
  have len: "length ?L = 8" by simp
  have mid: "middle_index ?L = 4"
    unfolding middle_index_def len by simp
  have "back_left_pages ?L = [(1, Some p1), (3, Some p3)]"
    unfolding back_left_pages_def py_slice_def mid len bl by simp
  moreover have "back_right_pages ?L = [(8, None), (6, Some p6)]"
    unfolding back_right_pages_def py_slice_def mid len br by simp
  moreover have "front_left_pages ?L = [(7, None), (5, Some p5)]"
    unfolding front_left_pages_def py_slice_def mid len by (simp add: fl)
  moreover have "front_right_pages ?L = [(2, Some p2), (4, Some p4)]"
    unfolding front_right_pages_def py_slice_def mid len fr by simp
  ultimately show ?thesis
    unfolding pi using pad mid by simp
qed

text \<open>
  The front-left sequence of the example is not the single slot at index 6: the slice
  \<open>page_info[6:3:-2]\<close> also takes index 4.
\<close>

theorem worked_example_front_left_counterexample:
  "front_left_pages (page_info [''1.png'', ''2.png'', ''3.png'', ''4.png'', ''5.png'', ''6.png''] 0)
     \<noteq> map (\<lambda>i. page_info [''1.png'', ''2.png'', ''3.png'', ''4.png'', ''5.png'', ''6.png''] 0 ! i) [6]"
  by code_simp

section \<open>Placement of an image on its half of the sheet\<close>

lemma drawable_w_pos: "0 < drawable_w"
  by (simp add: drawable_w_def page_width_def image_margin_def)

lemma drawable_h_pos: "0 < drawable_h"
  by (simp add: drawable_h_def page_height_def image_margin_def)

lemma fit_wide:
  fixes pw ph a :: real
  assumes "0 < pw" and "0 < ph" and "pw / ph < a"
  shows "pw / (ph * (pw / ph / a)) = a" and "ph * (pw / ph / a) < ph" and "0 < ph * (pw / ph / a)"
proof -
  from assms have a: "0 < a" by (meson divide_pos_pos less_trans)
  have eq: "ph * (pw / ph / a) = pw / a" using assms a by (simp add: field_simps)
  show "pw / (ph * (pw / ph / a)) = a" unfolding eq using assms a by (simp add: field_simps)
  from assms a have "pw < a * ph" by (simp add: field_simps)
  then show "ph * (pw / ph / a) < ph" unfolding eq using a by (simp add: field_simps)
  show "0 < ph * (pw / ph / a)" unfolding eq using assms a by simp
qed

lemma fit_tall:
  fixes pw ph a :: real
  assumes "0 < pw" and "0 < ph" and "0 < a" and "\<not> pw / ph < a"
  shows "pw * (a / (pw / ph)) / ph = a" and "pw * (a / (pw / ph)) \<le> pw" and "0 < pw * (a / (pw / ph))"
proof -
  have eq: "pw * (a / (pw / ph)) = a * ph" using assms by (simp add: field_simps)
  show "pw * (a / (pw / ph)) / ph = a" unfolding eq using assms by simp
  from assms have "a * ph \<le> pw" by (simp add: field_simps)
  then show "pw * (a / (pw / ph)) \<le> pw" unfolding eq .
  show "0 < pw * (a / (pw / ph))" unfolding eq using assms by simp
qed

lemma place_wide:
  assumes "ih \<noteq> 0" and "drawable_w / drawable_h < real_of_int iw / real_of_int ih"
  shows "place iw ih right_side =
           Inr \<lparr>rect_x = drawable_x right_side,
                rect_y = drawable_y
                  + (drawable_h
                     - drawable_h * (drawable_w / drawable_h / (real_of_int iw / real_of_int ih))) / 2,
                rect_w = drawable_w,
                rect_h = drawable_h * (drawable_w / drawable_h / (real_of_int iw / real_of_int ih))\<rparr>"
  using assms by (simp add: place_def Let_def)

lemma place_tall:
  assumes "ih \<noteq> 0" and "\<not> drawable_w / drawable_h < real_of_int iw / real_of_int ih"
  shows "place iw ih right_side =
           Inr \<lparr>rect_x = drawable_x right_side
                  + (drawable_w
                     - drawable_w * (real_of_int iw / real_of_int ih / (drawable_w / drawable_h))) / 2,
                rect_y = drawable_y,
                rect_w = drawable_w * (real_of_int iw / real_of_int ih / (drawable_w / drawable_h)),
                rect_h = drawable_h\<rparr>"
  using assms by (simp add: place_def Let_def)

text \<open>
  C6: for every image of positive width and height, \<open>place\<close> returns a rectangle in the
  half-sheet region reduced by the margin of 4.2 on all four sides. If the ratio of the
  image exceeds the ratio of that region, the width is the drawable width, the height is
  scaled down and the rectangle is centred vertically (equal gaps above and below);
  otherwise the height is the drawable height, the width is scaled down and the rectangle is
  centred horizontally. In both cases the rectangle has the aspect ratio of the image and
  lies inside the margin-reduced region. Python's floating-point numbers are read as real
  numbers here, so the statements are exact.
\<close>

theorem place_fits_image:
  assumes "0 < iw" and "0 < ih"
  shows "\<exists>r. place iw ih right_side = Inr r
     \<and> (drawable_w / drawable_h < real_of_int iw / real_of_int ih \<longrightarrow>
          rect_w r = drawable_w \<and> rect_h r < drawable_h \<and> rect_x r = drawable_x right_side
          \<and> rect_y r - drawable_y = (drawable_y + drawable_h) - (rect_y r + rect_h r))
     \<and> (\<not> drawable_w / drawable_h < real_of_int iw / real_of_int ih \<longrightarrow>
          rect_h r = drawable_h \<and> rect_w r \<le> drawable_w \<and> rect_y r = drawable_y
          \<and> rect_x r - drawable_x right_side
              = (drawable_x right_side + drawable_w) - (rect_x r + rect_w r))
     \<and> rect_w r / rect_h r = real_of_int iw / real_of_int ih
     \<and> 0 < rect_w r \<and> 0 < rect_h r
     \<and> drawable_x right_side \<le> rect_x r
     \<and> rect_x r + rect_w r \<le> drawable_x right_side + drawable_w
     \<and> drawable_y \<le> rect_y r
     \<and> rect_y r + rect_h r \<le> drawable_y + drawable_h
     \<and> drawable_x right_side = (if right_side then page_width / 2 else 0) + 4.2
     \<and> drawable_x right_side + drawable_w = (if right_side then page_width else page_width / 2) - 4.2
     \<and> drawable_y = 4.2
     \<and> drawable_y + drawable_h = page_height - 4.2"
proof -
  let ?a = "real_of_int iw / real_of_int ih"
  from assms have a: "0 < ?a" by simp
  from assms have ih: "ih \<noteq> 0" by simp
  have rx: "drawable_x right_side = (if right_side then page_width / 2 else 0) + 4.2"
    by (simp add: drawable_x_def image_margin_def)
  have rxw: "drawable_x right_side + drawable_w
               = (if right_side then page_width else page_width / 2) - 4.2"
    by (simp add: drawable_x_def drawable_w_def image_margin_def)
  have ry: "drawable_y = 4.2"
    by (simp add: drawable_y_def image_margin_def)
  have ryh: "drawable_y + drawable_h = page_height - 4.2"
    by (simp add: drawable_y_def drawable_h_def image_margin_def)
  show ?thesis
  proof (cases "drawable_w / drawable_h < ?a")
    case True
    define hh where "hh = drawable_h * (drawable_w / drawable_h / ?a)"
    define r where "r = \<lparr>rect_x = drawable_x right_side,
                          rect_y = drawable_y + (drawable_h - hh) / 2,
                          rect_w = drawable_w, rect_h = hh\<rparr>"
    have pl: "place iw ih right_side = Inr r"
      unfolding r_def hh_def by (rule place_wide [OF ih True])
    have ratio: "drawable_w / hh = ?a" and lt: "hh < drawable_h" and pos: "0 < hh"
      unfolding hh_def by (rule fit_wide [OF drawable_w_pos drawable_h_pos True])+
    have f: "rect_x r = drawable_x right_side" "rect_y r = drawable_y + (drawable_h - hh) / 2"
      "rect_w r = drawable_w" "rect_h r = hh"
      by (simp_all add: r_def)
    have c1: "rect_y r - drawable_y = (drawable_y + drawable_h) - (rect_y r + rect_h r)"
      unfolding f by (simp add: field_simps)
    have c2: "drawable_y \<le> rect_y r" unfolding f using lt by simp
    have c3: "rect_y r + rect_h r \<le> drawable_y + drawable_h" unfolding f using lt by (simp add: field_simps)
    have c4: "rect_w r / rect_h r = ?a" unfolding f by (rule ratio)
    have c5: "0 < rect_w r" "0 < rect_h r" unfolding f using drawable_w_pos pos by simp_all
    have c6: "drawable_x right_side \<le> rect_x r"
      "rect_x r + rect_w r \<le> drawable_x right_side + drawable_w"
      unfolding f by simp_all
    have c7: "rect_h r < drawable_h" unfolding f by (rule lt)
    from pl True f(1,3) c1 c2 c3 c4 c5 c6 c7 rx rxw ry ryh show ?thesis by blast
  next
    case False
    define ww where "ww = drawable_w * (?a / (drawable_w / drawable_h))"
    define r where "r = \<lparr>rect_x = drawable_x right_side + (drawable_w - ww) / 2,
                          rect_y = drawable_y,
                          rect_w = ww, rect_h = drawable_h\<rparr>"
    have pl: "place iw ih right_side = Inr r"
      unfolding r_def ww_def by (rule place_tall [OF ih False])
    have ratio: "ww / drawable_h = ?a" and le: "ww \<le> drawable_w" and pos: "0 < ww"
      unfolding ww_def by (rule fit_tall [OF drawable_w_pos drawable_h_pos a False])+
    have f: "rect_x r = drawable_x right_side + (drawable_w - ww) / 2" "rect_y r = drawable_y"
      "rect_w r = ww" "rect_h r = drawable_h"
      by (simp_all add: r_def)
    have c1: "rect_x r - drawable_x right_side
                = (drawable_x right_side + drawable_w) - (rect_x r + rect_w r)"
      unfolding f by (simp add: field_simps)
    have c2: "drawable_x right_side \<le> rect_x r" unfolding f using le by simp
    have c3: "rect_x r + rect_w r \<le> drawable_x right_side + drawable_w"
      unfolding f using le by (simp add: field_simps)
    have c4: "rect_w r / rect_h r = ?a" unfolding f by (rule ratio)
    have c5: "0 < rect_w r" "0 < rect_h r" unfolding f using drawable_h_pos pos by simp_all
    have c6: "drawable_y \<le> rect_y r" "rect_y r + rect_h r \<le> drawable_y + drawable_h"
      unfolding f by simp_all
    have c7: "rect_w r \<le> drawable_w" unfolding f by (rule le)
    from pl False f(2,4) c1 c2 c3 c4 c5 c6 c7 rx rxw ry ryh show ?thesis by blast
  qed
qed

text \<open>
  An image of 3 by 2 pixels on the right half: the wide case.
\<close>

theorem place_fits_image_witness:
  "(0::int) < 3 \<and> (0::int) < 2
   \<and> place 3 2 True
       = Inr \<lparr>rect_x = 1527 / 10, rect_y = 583 / 10, rect_w = 1401 / 10, rect_h = 467 / 5\<rparr>
   \<and> (1401 / 10) / (467 / 5) = (3 / 2 :: real)
   \<and> drawable_x True \<le> 1527 / 10
   \<and> 1527 / 10 + 1401 / 10 \<le> drawable_x True + drawable_w
   \<and> drawable_y \<le> 583 / 10
   \<and> 583 / 10 + 467 / 5 \<le> drawable_y + drawable_h"
proof -
  have v: "place 3 2 True
       = Inr \<lparr>rect_x = 1527 / 10, rect_y = 583 / 10, rect_w = 1401 / 10, rect_h = 467 / 5\<rparr>"
    by (simp add: place_def Let_def drawable_x_def drawable_y_def drawable_w_def drawable_h_def
        page_width_def page_height_def image_margin_def)
  have p: "(0::int) < 3" "(0::int) < 2" by simp_all
  from place_fits_image [OF p, of True] obtain r where
    r: "place 3 2 True = Inr r"
    and "rect_w r / rect_h r = real_of_int 3 / real_of_int 2"
    and "drawable_x True \<le> rect_x r"
    and "rect_x r + rect_w r \<le> drawable_x True + drawable_w"
    and "drawable_y \<le> rect_y r"
    and "rect_y r + rect_h r \<le> drawable_y + drawable_h"
    by blast
  moreover from r v
  have "r = \<lparr>rect_x = 1527 / 10, rect_y = 583 / 10, rect_w = 1401 / 10, rect_h = 467 / 5\<rparr>"
    by simp
  ultimately show ?thesis using v by simp
qed

text \<open>
  C7: \<open>place\<close> checks nothing. It fails exactly when the image height is zero, and then with
  the \<open>ZeroDivisionError\<close> of \<open>iw / ih\<close>; for every other height, whatever the width, it
  returns a rectangle. The region and the margins are constants of the class.
\<close>

theorem place_fails_only_on_zero_height:
  "(place iw ih right_side = Inl e) = (ih = 0 \<and> e = ZeroDivisionError)
   \<and> (\<exists>r. place iw ih right_side = Inr r) = (ih \<noteq> 0)"
  by (auto simp add: place_def Let_def)

text \<open>
  An image of width 0 is given a rectangle of width 0 instead of an error, and the error for
  an image of height 0 is the division error.
\<close>

theorem place_without_validation_counterexample:
  "place 0 10 False
     = Inr \<lparr>rect_x = 1485 / 20, rect_y = 21 / 5, rect_w = 0, rect_h = 1008 / 5\<rparr>
   \<and> place 10 0 False = Inl ZeroDivisionError"
  by (simp add: place_def Let_def drawable_x_def drawable_y_def drawable_w_def drawable_h_def
        page_width_def page_height_def image_margin_def)

section \<open>The extension check of write_image\<close>






section \<open>Building a document sheet by sheet\<close>

lemma written_out: "written (out self s) = written self @ [s]"
  by (cases "rev (pages self)")
    (auto simp add: out_def written_def rev_eq_Cons_iff)

lemma images_out: "images (out self s) = images self"
  by (simp add: out_def split: list.splits)

lemma length_pages_out: "length (pages (out self s)) = length (pages self)"
  by (cases "rev (pages self)") (auto simp add: out_def rev_eq_Cons_iff)

lemma written_add_page: "written (add_page self) = written self"
  by (simp add: add_page_def written_def)


lemma length_pages_add_page: "length (pages (add_page self)) = Suc (length (pages self))"
  by (simp add: add_page_def)


lemma write_image_InrE:
  assumes "write_image lib self p right_side = Inr self1"
  obtains iw ih r where "parse_image lib p = Inr (iw, ih)"
    and "place iw ih right_side = Inr r"
    and "self1 = out (self\<lparr>images := AList.update p
                          \<lparr>info_w = iw, info_h = ih, info_i = length (images self) + 1\<rparr>
                          (images self)\<rparr>)
                   (DrawImage (rect_w r * fpdf_k lib) (rect_h r * fpdf_k lib)
                      (rect_x r * fpdf_k lib)
                      ((fpdf_h lib - (rect_y r + rect_h r)) * fpdf_k lib)
                      (length (images self) + 1))"
proof (cases "parse_image lib p")
  case (Inl e)
  with assms show ?thesis by (simp add: write_image_def)
next
  case (Inr d)
  obtain iw ih where d: "d = (iw, ih)" by (cases d)
  show ?thesis
  proof (cases "place iw ih right_side")
    case (Inl e)
    with assms Inr d show ?thesis by (simp add: write_image_def Let_def)
  next
    case r: (Inr r)
    with assms Inr d that [of iw ih r] show ?thesis
      by (simp add: write_image_def Let_def)
  qed
qed

lemma written_images_update: "written (self\<lparr>images := al\<rparr>) = written self"
  by (simp add: written_def)

lemma write_image_Inr:
  assumes "write_image lib self p right_side = Inr self1"
  shows "\<exists>iw ih. images self1
           = AList.update p
               \<lparr>info_w = iw, info_h = ih, info_i = length (images self) + 1\<rparr> (images self)"
    and "image_refs self1 = image_refs self @ [length (images self) + 1]"
    and "placed_page_nums self1 = placed_page_nums self"
    and "length (pages self1) = length (pages self)"
    and "image_ok lib p"
proof -
  from assms obtain iw ih r where
    p: "parse_image lib p = Inr (iw, ih)" and pl: "place iw ih right_side = Inr r"
    and s: "self1 = out (self\<lparr>images := AList.update p
                          \<lparr>info_w = iw, info_h = ih, info_i = length (images self) + 1\<rparr>
                          (images self)\<rparr>)
                   (DrawImage (rect_w r * fpdf_k lib) (rect_h r * fpdf_k lib)
                      (rect_x r * fpdf_k lib)
                      ((fpdf_h lib - (rect_y r + rect_h r)) * fpdf_k lib)
                      (length (images self) + 1))"
    by (rule write_image_InrE)
  from s show "\<exists>iw ih. images self1
           = AList.update p
               \<lparr>info_w = iw, info_h = ih, info_i = length (images self) + 1\<rparr> (images self)"
    by (intro exI) (simp add: images_out)
  from s show "image_refs self1 = image_refs self @ [length (images self) + 1]"
    by (simp add: image_refs_def written_out written_images_update)
  from s show "placed_page_nums self1 = placed_page_nums self"
    by (simp add: placed_page_nums_def written_out written_images_update)
  from s show "length (pages self1) = length (pages self)"
    by (simp add: length_pages_out)
  from pl have "ih \<noteq> 0" by (auto simp add: place_def split: if_splits)
  with p show "image_ok lib p" by (simp add: image_ok_def)
qed

lemma write_image_ok:
  assumes "image_ok lib p"
  shows "\<exists>self1. write_image lib self p right_side = Inr self1"
  using assms
  by (auto simp add: write_image_def Let_def image_ok_def place_def split: sum.splits prod.splits)

lemma write_page_num_facts:
  "images (write_page_num lib self n right_side) = images self"
  "image_refs (write_page_num lib self n right_side) = image_refs self"
  "placed_page_nums (write_page_num lib self n right_side) = placed_page_nums self @ [n]"
  "length (pages (write_page_num lib self n right_side)) = length (pages self)"
  by (simp_all add: write_page_num_def Let_def images_out written_out length_pages_out
      image_refs_def placed_page_nums_def)

lemma write_half_None: "snd pg = None \<Longrightarrow> write_half lib self pg right_side = Inr self"
  by (simp add: write_half_def)

lemma write_half_Some:
  "snd pg = Some p \<Longrightarrow>
     write_half lib self pg right_side
       = (case write_image lib self p right_side of
            Inl e \<Rightarrow> Inl e
          | Inr self1 \<Rightarrow> Inr (write_page_num lib self1 (fst pg) right_side))"
  by (simp add: write_half_def)

lemma write_half_counts:
  assumes "write_half lib self pg right_side = Inr self1"
  shows "placed_page_nums self1 = placed_page_nums self @ half_num pg"
    and "length (pages self1) = length (pages self)"
    and "\<forall>p \<in> set (half_path pg). image_ok lib p"
proof -
  obtain n sl where pg: "pg = (n, sl)" by (cases pg)
  show "placed_page_nums self1 = placed_page_nums self @ half_num pg"
    and "length (pages self1) = length (pages self)"
    and "\<forall>p \<in> set (half_path pg). image_ok lib p"
  proof (atomize (full), cases sl)
    case None
    with assms pg show "placed_page_nums self1 = placed_page_nums self @ half_num pg
      \<and> length (pages self1) = length (pages self)
      \<and> (\<forall>p \<in> set (half_path pg). image_ok lib p)"
      by (simp add: write_half_def)
  next
    case (Some p)
    with assms pg obtain s1 where w: "write_image lib self p right_side = Inr s1"
      and s: "self1 = write_page_num lib s1 n right_side"
      by (auto simp add: write_half_def split: sum.splits)
    from write_image_Inr(3,4,5) [OF w] s Some pg
    show "placed_page_nums self1 = placed_page_nums self @ half_num pg
      \<and> length (pages self1) = length (pages self)
      \<and> (\<forall>p \<in> set (half_path pg). image_ok lib p)"
      by (simp add: write_page_num_facts)
  qed
qed

lemma write_half_ok:
  assumes "\<forall>p \<in> set (half_path pg). image_ok lib p"
  shows "\<exists>self1. write_half lib self pg right_side = Inr self1"
proof -
  obtain n sl where pg: "pg = (n, sl)" by (cases pg)
  show ?thesis
  proof (cases sl)
    case None
    with pg show ?thesis by (simp add: write_half_def)
  next
    case (Some p)
    with assms pg have "image_ok lib p" by simp
    from write_image_ok [OF this, of self right_side] Some pg show ?thesis
      by (auto simp add: write_half_def)
  qed
qed

lemma write_sheets_counts:
  assumes "write_sheets lib self zs = Inr st"
  shows "length (pages st) = length (pages self) + length zs
       \<and> placed_page_nums st = placed_page_nums self @ sheet_nums zs
       \<and> (\<forall>p \<in> set (sheet_paths zs). image_ok lib p)"
  using assms
proof (induction zs arbitrary: self)
  case Nil
  then show ?case by (simp add: sheet_nums_def sheet_paths_def)
next
  case (Cons z zs)
  obtain l r where z: "z = (l, r)" by (cases z)
  from Cons.prems z obtain s1 s2 where
    h1: "write_half lib (add_page self) l False = Inr s1"
    and h2: "write_half lib s1 r True = Inr s2"
    and rest: "write_sheets lib s2 zs = Inr st"
    by (auto split: sum.splits)
  note c1 = write_half_counts [OF h1] and c2 = write_half_counts [OF h2]
  note ih = Cons.IH [OF rest]
  have "length (pages st) = length (pages self) + length (z # zs)"
    using ih c1(2) c2(2) by (simp add: length_pages_add_page)
  moreover have "placed_page_nums st = placed_page_nums self @ sheet_nums (z # zs)"
    using ih c1(1) c2(1) z
    by (simp add: sheet_nums_def placed_page_nums_def written_add_page)
  moreover have "\<forall>p \<in> set (sheet_paths (z # zs)). image_ok lib p"
    using ih c1(3) c2(3) z by (auto simp add: sheet_paths_def)
  ultimately show ?case by blast
qed

lemma write_sheets_ok:
  assumes "\<forall>p \<in> set (sheet_paths zs). image_ok lib p"
  shows "\<exists>st. write_sheets lib self zs = Inr st"
  using assms
proof (induction zs arbitrary: self)
  case Nil
  then show ?case by simp
next
  case (Cons z zs)
  obtain l r where z: "z = (l, r)" by (cases z)
  from Cons.prems z have l: "\<forall>p \<in> set (half_path l). image_ok lib p"
    and r: "\<forall>p \<in> set (half_path r). image_ok lib p"
    and zs: "\<forall>p \<in> set (sheet_paths zs). image_ok lib p"
    by (auto simp add: sheet_paths_def)
  from write_half_ok [OF l] obtain s1 where h1: "write_half lib (add_page self) l False = Inr s1"
    by blast
  from write_half_ok [OF r] obtain s2 where h2: "write_half lib s1 r True = Inr s2"
    by blast
  from Cons.IH [OF zs, of s2] h1 h2 z show ?case by simp
qed












section \<open>Every slot is placed exactly once\<close>

lemma mset_evens_odds:
  "mset (map (\<lambda>j. a + 2 * int j) [0..<m]) + mset (map (\<lambda>j. a + 1 + 2 * int j) [0..<m])
     = mset (map (\<lambda>k. a + int k) [0..<2 * m])"
proof (induction m)
  case 0
  show ?case by simp
next
  case (Suc m)
  have "[0..<2 * Suc m] = [0..<2 * m] @ [2 * m, Suc (2 * m)]" by simp
  then have "mset (map (\<lambda>k. a + int k) [0..<2 * Suc m])
      = mset (map (\<lambda>k. a + int k) [0..<2 * m]) + {#a + 2 * int m, a + 1 + 2 * int m#}"
    by (simp del: mset_upt upt_Suc add: algebra_simps)
  also have "\<dots> = mset (map (\<lambda>j. a + 2 * int j) [0..<m]) + mset (map (\<lambda>j. a + 1 + 2 * int j) [0..<m])
      + {#a + 2 * int m, a + 1 + 2 * int m#}"
    by (simp only: Suc.IH)
  also have "\<dots> = mset (map (\<lambda>j. a + 2 * int j) [0..<Suc m])
      + mset (map (\<lambda>j. a + 1 + 2 * int j) [0..<Suc m])"
    by (simp del: mset_upt)
  finally show ?case by simp
qed

lemma map_downward:
  "map (\<lambda>j. c - 2 * int j) [0..<m] = rev (map (\<lambda>j. c - 2 * (int m - 1) + 2 * int j) [0..<m])"
proof (rule nth_equalityI)
  show "length (map (\<lambda>j. c - 2 * int j) [0..<m])
      = length (rev (map (\<lambda>j. c - 2 * (int m - 1) + 2 * int j) [0..<m]))" by simp
next
  fix i assume "i < length (map (\<lambda>j. c - 2 * int j) [0..<m])"
  then have i: "i < m" by simp
  then have "int (m - Suc i) = int m - 1 - int i" by simp
  with i show "map (\<lambda>j. c - 2 * int j) [0..<m] ! i
      = rev (map (\<lambda>j. c - 2 * (int m - 1) + 2 * int j) [0..<m]) ! i"
    by (simp add: rev_nth)
qed

lemma mset_downward:
  "mset (map (\<lambda>j. c - 2 * int j) [0..<m])
     = mset (map (\<lambda>j. c - 2 * (int m - 1) + 2 * int j) [0..<m])"
  by (simp only: map_downward mset_rev)

lemma mset_all_indices:
  "mset (map (\<lambda>j. 2 * int j) [0..<m]) + mset (map (\<lambda>j. int (4 * m) - 1 - 2 * int j) [0..<m])
     + mset (map (\<lambda>j. int (4 * m) - 2 - 2 * int j) [0..<m]) + mset (map (\<lambda>j. 1 + 2 * int j) [0..<m])
   = mset (map int [0..<4 * m])"
proof -
  have low: "mset (map (\<lambda>j. 2 * int j) [0..<m]) + mset (map (\<lambda>j. 1 + 2 * int j) [0..<m])
      = mset (map int [0..<2 * m])"
    using mset_evens_odds [of 0 m] by simp
  have br: "mset (map (\<lambda>j. int (4 * m) - 1 - 2 * int j) [0..<m])
      = mset (map (\<lambda>j. 2 * int m + 1 + 2 * int j) [0..<m])"
  proof -
    have "(\<lambda>j. int (4 * m) - 1 - 2 * (int m - 1) + 2 * int j) = (\<lambda>j. 2 * int m + 1 + 2 * int j)"
      by (rule ext) simp
    with mset_downward [of "int (4 * m) - 1" m] show ?thesis by simp
  qed
  have fl: "mset (map (\<lambda>j. int (4 * m) - 2 - 2 * int j) [0..<m])
      = mset (map (\<lambda>j. 2 * int m + 2 * int j) [0..<m])"
  proof -
    have "(\<lambda>j. int (4 * m) - 2 - 2 * (int m - 1) + 2 * int j) = (\<lambda>j. 2 * int m + 2 * int j)"
      by (rule ext) simp
    with mset_downward [of "int (4 * m) - 2" m] show ?thesis by simp
  qed
  have high: "mset (map (\<lambda>j. 2 * int m + 2 * int j) [0..<m])
      + mset (map (\<lambda>j. 2 * int m + 1 + 2 * int j) [0..<m])
      = mset (map (\<lambda>k. 2 * int m + int k) [0..<2 * m])"
    by (rule mset_evens_odds)
  have split: "[0..<4 * m] = [0..<2 * m] @ map (\<lambda>k. k + 2 * m) [0..<2 * m]"
  proof -
    have "[0..<4 * m] = [0..<2 * m + 2 * m]" by simp
    also have "\<dots> = [0..<2 * m] @ [2 * m..<2 * m + 2 * m]"
      by (simp only: upt_add_eq_append [OF le0])
    also have "[2 * m..<2 * m + 2 * m] = map (\<lambda>k. k + 2 * m) [0..<2 * m]"
      by (simp add: map_add_upt)
    finally show ?thesis .
  qed
  have "mset (map int [0..<4 * m])
      = mset (map int [0..<2 * m]) + mset (map (\<lambda>k. 2 * int m + int k) [0..<2 * m])"
    unfolding split by (simp del: mset_upt add: comp_def add.commute)
  also have "\<dots> = (mset (map (\<lambda>j. 2 * int j) [0..<m]) + mset (map (\<lambda>j. 1 + 2 * int j) [0..<m]))
      + (mset (map (\<lambda>j. int (4 * m) - 2 - 2 * int j) [0..<m])
         + mset (map (\<lambda>j. int (4 * m) - 1 - 2 * int j) [0..<m]))"
    by (simp only: low high br fl)
  finally show ?thesis by (simp only: ac_simps)
qed

lemma plan_slices:
  assumes "length xs = 4 * m"
  shows "back_left_pages xs = map (\<lambda>i. xs ! nat i) (map (\<lambda>j. 2 * int j) [0..<m])"
    and "back_right_pages xs = map (\<lambda>i. xs ! nat i) (map (\<lambda>j. int (4 * m) - 1 - 2 * int j) [0..<m])"
    and "front_left_pages xs = map (\<lambda>i. xs ! nat i) (map (\<lambda>j. int (4 * m) - 2 - 2 * int j) [0..<m])"
    and "front_right_pages xs = map (\<lambda>i. xs ! nat i) (map (\<lambda>j. 1 + 2 * int j) [0..<m])"
  unfolding back_left_pages_def back_right_pages_def front_left_pages_def front_right_pages_def
    py_slice_def middle_index_def assms
  by (simp_all only: back_left_indices back_right_indices front_left_indices front_right_indices)

lemma plan_lengths:
  assumes "length xs = 4 * m"
  shows "length (back_left_pages xs) = m" and "length (back_right_pages xs) = m"
    and "length (front_left_pages xs) = m" and "length (front_right_pages xs) = m"
  unfolding plan_slices [OF assms] by simp_all

lemma plan_mset:
  assumes "length xs = 4 * m"
  shows "mset (back_left_pages xs @ back_right_pages xs @ front_left_pages xs @ front_right_pages xs)
           = mset xs"
proof -
  have "mset (back_left_pages xs @ back_right_pages xs @ front_left_pages xs @ front_right_pages xs)
      = image_mset (\<lambda>i. xs ! nat i)
          (mset (map (\<lambda>j. 2 * int j) [0..<m])
           + mset (map (\<lambda>j. int (4 * m) - 1 - 2 * int j) [0..<m])
           + mset (map (\<lambda>j. int (4 * m) - 2 - 2 * int j) [0..<m])
           + mset (map (\<lambda>j. 1 + 2 * int j) [0..<m]))"
    unfolding plan_slices [OF assms] by (simp only: mset_append mset_map image_mset_union ac_simps)
  also have "\<dots> = image_mset (\<lambda>i. xs ! nat i) (mset (map int [0..<4 * m]))"
    by (simp only: mset_all_indices)
  also have "\<dots> = mset (map (\<lambda>k. xs ! k) [0..<length xs])"
  proof -
    have "map (\<lambda>i. xs ! nat i) (map int [0..<4 * m]) = map (\<lambda>k. xs ! k) [0..<4 * m]"
      by (simp add: comp_def)
    then have "mset (map (\<lambda>i. xs ! nat i) (map int [0..<4 * m]))
        = mset (map (\<lambda>k. xs ! k) [0..<4 * m])" by (simp only:)
    then show ?thesis unfolding assms by (simp only: mset_map)
  qed
  also have "\<dots> = mset xs" by (simp only: map_nth)
  finally show ?thesis .
qed

lemma sheet_nums_zip:
  assumes "length ls = length rs"
  shows "mset (sheet_nums (zip ls rs)) = mset (concat (map half_num ls)) + mset (concat (map half_num rs))"
  using assms
proof (induction ls rs rule: list_induct2)
  case Nil
  show ?case by (simp add: sheet_nums_def)
next
  case (Cons l ls r rs)
  then show ?case by (simp add: sheet_nums_def)
qed

lemma half_nums_filter:
  "concat (map half_num ys) = map fst (filter (\<lambda>pg. snd pg \<noteq> None) ys)"
proof (induction ys)
  case Nil
  show ?case by simp
next
  case (Cons y ys)
  obtain n sl where "y = (n, sl)" by (cases y)
  with Cons show ?case by (cases sl) simp_all
qed

lemma plan_nums_mset:
  assumes "length xs = 4 * m"
  shows "mset (sheet_nums (zip (back_left_pages xs) (back_right_pages xs))
               @ sheet_nums (zip (front_left_pages xs) (front_right_pages xs)))
           = mset (map fst (filter (\<lambda>pg. snd pg \<noteq> None) xs))"
proof -
  let ?f = "\<lambda>ys :: page list. mset (map fst (filter (\<lambda>pg. snd pg \<noteq> None) ys))"
  have app: "?f (ys @ zs) = ?f ys + ?f zs" for ys zs by simp
  have cong: "?f ys = ?f zs" if "mset ys = mset zs" for ys zs
  proof -
    have "?f ys = image_mset fst (filter_mset (\<lambda>pg. snd pg \<noteq> None) (mset ys))" by simp
    also have "\<dots> = image_mset fst (filter_mset (\<lambda>pg. snd pg \<noteq> None) (mset zs))"
      by (simp only: that)
    also have "\<dots> = ?f zs" by simp
    finally show ?thesis .
  qed
  have b: "length (back_left_pages xs) = length (back_right_pages xs)"
    and f: "length (front_left_pages xs) = length (front_right_pages xs)"
    by (simp_all only: plan_lengths [OF assms])
  have "mset (sheet_nums (zip (back_left_pages xs) (back_right_pages xs))
               @ sheet_nums (zip (front_left_pages xs) (front_right_pages xs)))
      = ?f (back_left_pages xs) + ?f (back_right_pages xs)
        + (?f (front_left_pages xs) + ?f (front_right_pages xs))"
    by (simp only: mset_append sheet_nums_zip [OF b] sheet_nums_zip [OF f] half_nums_filter)
  also have "\<dots> = ?f (back_left_pages xs @ back_right_pages xs
                        @ front_left_pages xs @ front_right_pages xs)"
    by (simp only: app ac_simps)
  also have "\<dots> = ?f xs" by (rule cong) (rule plan_mset [OF assms])
  finally show ?thesis .
qed

lemma sheet_paths_zip:
  assumes "length ls = length rs"
  shows "mset (sheet_paths (zip ls rs))
           = mset (concat (map half_path ls)) + mset (concat (map half_path rs))"
  using assms
proof (induction ls rs rule: list_induct2)
  case Nil
  show ?case by (simp add: sheet_paths_def)
next
  case (Cons l ls r rs)
  then show ?case by (simp add: sheet_paths_def)
qed

lemma set_half_paths: "set (concat (map half_path ys)) = {p. \<exists>n. (n, Some p) \<in> set ys}"
proof (induction ys)
  case Nil
  show ?case by simp
next
  case (Cons y ys)
  obtain n sl where "y = (n, sl)" by (cases y)
  with Cons show ?case by (cases sl) auto
qed

lemma plan_paths_set:
  assumes "length xs = 4 * m"
  shows "set (sheet_paths (zip (back_left_pages xs) (back_right_pages xs)))
           \<union> set (sheet_paths (zip (front_left_pages xs) (front_right_pages xs)))
         = {p. \<exists>n. (n, Some p) \<in> set xs}"
proof -
  have b: "length (back_left_pages xs) = length (back_right_pages xs)"
    and f: "length (front_left_pages xs) = length (front_right_pages xs)"
    by (simp_all only: plan_lengths [OF assms])
  have "set (sheet_paths (zip (back_left_pages xs) (back_right_pages xs)))
      = set (concat (map half_path (back_left_pages xs)))
        \<union> set (concat (map half_path (back_right_pages xs)))"
    using arg_cong [OF sheet_paths_zip [OF b], of set_mset] by (simp only: set_mset_mset set_mset_union)
  moreover have "set (sheet_paths (zip (front_left_pages xs) (front_right_pages xs)))
      = set (concat (map half_path (front_left_pages xs)))
        \<union> set (concat (map half_path (front_right_pages xs)))"
    using arg_cong [OF sheet_paths_zip [OF f], of set_mset] by (simp only: set_mset_mset set_mset_union)
  moreover have "set (back_left_pages xs) \<union> set (back_right_pages xs)
      \<union> set (front_left_pages xs) \<union> set (front_right_pages xs) = set xs"
    using arg_cong [OF plan_mset [OF assms], of set_mset] by (simp add: Un_assoc)
  ultimately show ?thesis unfolding set_half_paths by blast
qed

text \<open>
  C2: for every slot list whose length \<open>N\<close> is divisible by 4, the back document and the
  front document each get \<open>N / 4\<close> sheets; the four sequences together hold every slot, and
  every slot index, exactly once; and when both documents are built, each has \<open>N / 4\<close>
  pages and the page numbers printed in the two documents are, as a multiset, the numbers of
  the slots that are not blank, so that each is printed once when the slots carry
  different numbers. Both documents are built exactly when every image of the list can be
  drawn.
\<close>

theorem plan_sheets_and_page_numbers:
  assumes "4 dvd length xs"
  shows "length (zip (back_left_pages xs) (back_right_pages xs)) = length xs div 4
       \<and> length (zip (front_left_pages xs) (front_right_pages xs)) = length xs div 4
       \<and> mset (back_left_pages xs @ back_right_pages xs @ front_left_pages xs @ front_right_pages xs)
           = mset xs
       \<and> mset (back_left_pages [0..<length xs] @ back_right_pages [0..<length xs]
                 @ front_left_pages [0..<length xs] @ front_right_pages [0..<length xs])
           = mset [0..<length xs]
       \<and> (\<forall>back_doc front_doc.
             MangaPDF_init lib (back_left_pages xs) (back_right_pages xs) = Inr back_doc
             \<and> MangaPDF_init lib (front_left_pages xs) (front_right_pages xs) = Inr front_doc
             \<longrightarrow> length (pages back_doc) = length xs div 4
               \<and> length (pages front_doc) = length xs div 4
               \<and> mset (placed_page_nums back_doc @ placed_page_nums front_doc)
                   = mset (map fst (filter (\<lambda>pg. snd pg \<noteq> None) xs))
               \<and> (distinct (map fst xs)
                    \<longrightarrow> distinct (placed_page_nums back_doc @ placed_page_nums front_doc)))
       \<and> ((\<exists>back_doc front_doc.
              MangaPDF_init lib (back_left_pages xs) (back_right_pages xs) = Inr back_doc
              \<and> MangaPDF_init lib (front_left_pages xs) (front_right_pages xs) = Inr front_doc)
            = (\<forall>n p. (n, Some p) \<in> set xs \<longrightarrow> image_ok lib p))"
proof -
  from assms obtain m where m: "length xs = 4 * m" by (auto simp: dvd_def)
  then have q: "length xs div 4 = m" by simp
  have m': "length [0..<length xs] = 4 * m" using m by simp
  note len = plan_lengths [OF m]
  have c1: "length (zip (back_left_pages xs) (back_right_pages xs)) = length xs div 4"
    and c2: "length (zip (front_left_pages xs) (front_right_pages xs)) = length xs div 4"
    unfolding q by (simp_all add: len)
  note c3 = plan_mset [OF m]
  note c4 = plan_mset [OF m']
  have c5: "length (pages back_doc) = length xs div 4
        \<and> length (pages front_doc) = length xs div 4
        \<and> mset (placed_page_nums back_doc @ placed_page_nums front_doc)
            = mset (map fst (filter (\<lambda>pg. snd pg \<noteq> None) xs))
        \<and> (distinct (map fst xs) \<longrightarrow> distinct (placed_page_nums back_doc @ placed_page_nums front_doc))"
    if b: "MangaPDF_init lib (back_left_pages xs) (back_right_pages xs) = Inr back_doc"
      and f: "MangaPDF_init lib (front_left_pages xs) (front_right_pages xs) = Inr front_doc"
    for back_doc front_doc
  proof -
    from b have wb: "write_sheets lib fresh (zip (back_left_pages xs) (back_right_pages xs)) = Inr back_doc"
      by (simp add: MangaPDF_init_def)
    from f have wf: "write_sheets lib fresh (zip (front_left_pages xs) (front_right_pages xs)) = Inr front_doc"
      by (simp add: MangaPDF_init_def)
    have p0: "length (pages fresh) = 0" and n0: "placed_page_nums fresh = []"
      by (simp_all add: fresh_def placed_page_nums_def written_def)
    from write_sheets_counts [OF wb] p0 n0 c1
    have pb: "length (pages back_doc) = length xs div 4"
      and nb: "placed_page_nums back_doc = sheet_nums (zip (back_left_pages xs) (back_right_pages xs))"
      by simp_all
    from write_sheets_counts [OF wf] p0 n0 c2
    have pf: "length (pages front_doc) = length xs div 4"
      and nf: "placed_page_nums front_doc = sheet_nums (zip (front_left_pages xs) (front_right_pages xs))"
      by simp_all
    have eq: "mset (placed_page_nums back_doc @ placed_page_nums front_doc)
            = mset (map fst (filter (\<lambda>pg. snd pg \<noteq> None) xs))"
      unfolding nb nf by (rule plan_nums_mset [OF m])
    have "distinct (placed_page_nums back_doc @ placed_page_nums front_doc)" if "distinct (map fst xs)"
    proof -
      from that have "distinct (map fst (filter (\<lambda>pg. snd pg \<noteq> None) xs))"
        by (rule distinct_map_filter)
      with mset_eq_imp_distinct_iff [OF eq] show ?thesis by simp
    qed
    with pb pf eq show ?thesis by blast
  qed
  have c6: "(\<exists>back_doc front_doc.
              MangaPDF_init lib (back_left_pages xs) (back_right_pages xs) = Inr back_doc
              \<and> MangaPDF_init lib (front_left_pages xs) (front_right_pages xs) = Inr front_doc)
            = (\<forall>n p. (n, Some p) \<in> set xs \<longrightarrow> image_ok lib p)"
  proof
    assume "\<exists>back_doc front_doc.
              MangaPDF_init lib (back_left_pages xs) (back_right_pages xs) = Inr back_doc
              \<and> MangaPDF_init lib (front_left_pages xs) (front_right_pages xs) = Inr front_doc"
    then obtain back_doc front_doc where
      wb: "write_sheets lib fresh (zip (back_left_pages xs) (back_right_pages xs)) = Inr back_doc"
      and wf: "write_sheets lib fresh (zip (front_left_pages xs) (front_right_pages xs)) = Inr front_doc"
      by (auto simp add: MangaPDF_init_def)
    from write_sheets_counts [OF wb] write_sheets_counts [OF wf]
    have "\<forall>p \<in> set (sheet_paths (zip (back_left_pages xs) (back_right_pages xs)))
           \<union> set (sheet_paths (zip (front_left_pages xs) (front_right_pages xs))). image_ok lib p"
      by blast
    then show "\<forall>n p. (n, Some p) \<in> set xs \<longrightarrow> image_ok lib p"
      unfolding plan_paths_set [OF m] by blast
  next
    assume "\<forall>n p. (n, Some p) \<in> set xs \<longrightarrow> image_ok lib p"
    then have "\<forall>p \<in> set (sheet_paths (zip (back_left_pages xs) (back_right_pages xs)))
           \<union> set (sheet_paths (zip (front_left_pages xs) (front_right_pages xs))). image_ok lib p"
      unfolding plan_paths_set [OF m] by blast
    then have "\<forall>p \<in> set (sheet_paths (zip (back_left_pages xs) (back_right_pages xs))). image_ok lib p"
      and "\<forall>p \<in> set (sheet_paths (zip (front_left_pages xs) (front_right_pages xs))). image_ok lib p"
      by blast+
    from write_sheets_ok [OF this(1), of fresh] write_sheets_ok [OF this(2), of fresh]
    show "\<exists>back_doc front_doc.
              MangaPDF_init lib (back_left_pages xs) (back_right_pages xs) = Inr back_doc
              \<and> MangaPDF_init lib (front_left_pages xs) (front_right_pages xs) = Inr front_doc"
      by (auto simp add: MangaPDF_init_def)
  qed
  from c1 c2 c3 c4 c5 c6 show ?thesis by blast
qed

text \<open>
  Five images behind one leading blank: eight slots, two sheets in each document, and the
  page numbers 1 to 5 printed once each.
\<close>

theorem plan_sheets_and_page_numbers_witness:
  "4 dvd length (page_info [''a.png'', ''b.jpg'', ''c.png'', ''d.jpg'', ''e.png''] 1)
   \<and> length (page_info [''a.png'', ''b.jpg'', ''c.png'', ''d.jpg'', ''e.png''] 1) div 4 = 2
   \<and> map_sum id (\<lambda>st. (length (pages st), placed_page_nums st))
         (MangaPDF_init example_lib
            (back_left_pages (page_info [''a.png'', ''b.jpg'', ''c.png'', ''d.jpg'', ''e.png''] 1))
            (back_right_pages (page_info [''a.png'', ''b.jpg'', ''c.png'', ''d.jpg'', ''e.png''] 1)))
       = Inr (2, [2, 5])
   \<and> map_sum id (\<lambda>st. (length (pages st), placed_page_nums st))
         (MangaPDF_init example_lib
            (front_left_pages (page_info [''a.png'', ''b.jpg'', ''c.png'', ''d.jpg'', ''e.png''] 1))
            (front_right_pages (page_info [''a.png'', ''b.jpg'', ''c.png'', ''d.jpg'', ''e.png''] 1)))
       = Inr (2, [1, 4, 3])
   \<and> map fst (filter (\<lambda>pg. snd pg \<noteq> None)
         (page_info [''a.png'', ''b.jpg'', ''c.png'', ''d.jpg'', ''e.png''] 1)) = [1, 2, 3, 4, 5]
   \<and> mset ([2, 5] @ [1, 4, 3]) = mset [1, 2, 3, 4, 5 :: int]"
proof -
  let ?X = "page_info [''a.png'', ''b.jpg'', ''c.png'', ''d.jpg'', ''e.png''] 1"
  have h: "4 dvd length ?X" by code_simp
  have q: "length ?X div 4 = 2" by code_simp
  have vb: "map_sum id (\<lambda>st. (length (pages st), placed_page_nums st))
         (MangaPDF_init example_lib (back_left_pages ?X) (back_right_pages ?X)) = Inr (2, [2, 5])"
    by code_simp
  have vf: "map_sum id (\<lambda>st. (length (pages st), placed_page_nums st))
         (MangaPDF_init example_lib (front_left_pages ?X) (front_right_pages ?X))
       = Inr (2, [1, 4, 3])"
    by code_simp
  have nums: "map fst (filter (\<lambda>pg. snd pg \<noteq> None) ?X) = [1, 2, 3, 4, 5]" by code_simp
  from vb obtain back_doc where
    b: "MangaPDF_init example_lib (back_left_pages ?X) (back_right_pages ?X) = Inr back_doc"
    and nb: "placed_page_nums back_doc = [2, 5]"
    by (cases "MangaPDF_init example_lib (back_left_pages ?X) (back_right_pages ?X)") auto
  from vf obtain front_doc where
    f: "MangaPDF_init example_lib (front_left_pages ?X) (front_right_pages ?X) = Inr front_doc"
    and nf: "placed_page_nums front_doc = [1, 4, 3]"
    by (cases "MangaPDF_init example_lib (front_left_pages ?X) (front_right_pages ?X)") auto
  from plan_sheets_and_page_numbers [OF h, of example_lib] b f
  have "mset (placed_page_nums back_doc @ placed_page_nums front_doc)
      = mset (map fst (filter (\<lambda>pg. snd pg \<noteq> None) ?X))"
    by blast
  then have "mset ([2, 5] @ [1, 4, 3]) = mset [1, 2, 3, 4, 5 :: int]"
    unfolding nb nf nums .
  with h q vb vf nums show ?thesis by blast
qed

end
